theory Spec2Isabelle
  imports Main "HOL-Library.Word" "HOL-Library.Char_ord"
begin

unbundle bit_operations_syntax

section \<open>C strings\<close>

text \<open>
  Embedding of \<^verbatim>\<open>ip_validator.c\<close>. A \<^verbatim>\<open>const char *\<close> argument is a
  \<open>string option\<close>: \<open>None\<close> is the null pointer, \<open>Some s\<close> points at the bytes \<open>s\<close>,
  which are followed by a terminating NUL. \<open>char_at\<close> reads the byte at an index, and
  NUL at the end of the bytes. The C string the code sees is the bytes before the
  first NUL, so \<open>strnlen\<close> counts the bytes before the first NUL among the first
  \<open>maxlen\<close>; a string without NUL is its own content. A pointer into the string is
  an index, and the string that starts at index \<open>p\<close> is \<open>drop p s\<close>. Characters are
  compared by their byte values; a byte of 0x80 or more is outside every range the
  code tests, whether \<^verbatim>\<open>char\<close> is signed or not.
\<close>

definition NUL :: char where
  "NUL = CHR 0x00"

definition char_at :: "string \<Rightarrow> nat \<Rightarrow> char" where
  "char_at str i = (if i < length str then str ! i else NUL)"

definition strnlen :: "string \<Rightarrow> nat \<Rightarrow> nat" where
  "strnlen str maxlen = length (takeWhile (\<lambda>c. c \<noteq> NUL) (take maxlen str))"

definition isdigit :: "char \<Rightarrow> bool" where
  "isdigit c = (CHR ''0'' \<le> c \<and> c \<le> CHR ''9'')"

text \<open>
  \<^verbatim>\<open>#define MAX_SIZE_IPV4 16\<close>, "maximum dotted-quad length including NUL".
  \<open>INET6_ADDRSTRLEN\<close> is not declared in the repository: it comes from the system
  header \<^verbatim>\<open><arpa/inet.h>\<close>, where it is 46.
\<close>

definition MAX_SIZE_IPV4 :: nat where
  "MAX_SIZE_IPV4 = 16"

definition INET6_ADDRSTRLEN :: nat where
  "INET6_ADDRSTRLEN = 46"

section \<open>parse_int\<close>

text \<open>
  \<^verbatim>\<open>parse_int(str, start, end, result)\<close>: \<open>None\<close> is the return value false,
  \<open>Some v\<close> is true with \<open>*result = v\<close>. \<open>parse_int_step\<close> is the body of the loop,
  on the accumulator \<open>*result\<close> and the character \<open>str[i]\<close>; neither the indices
  (at most 17) nor the accumulator (at most 259 before the test) can overflow an
  \<^verbatim>\<open>int\<close>.
\<close>

definition parse_int_step :: "int \<Rightarrow> char \<Rightarrow> int option" where
  "parse_int_step result c =
     (if \<not> isdigit c then None
      else if result > 25 \<or> (result = 25 \<and> (of_char c - of_char CHR ''0'' :: int) > 5) then None
      else Some (result * 10 + (of_char c - of_char CHR ''0'')))"

function parse_int_loop :: "string \<Rightarrow> nat \<Rightarrow> nat \<Rightarrow> int \<Rightarrow> int option" where
  "parse_int_loop str i end result =
     (if i < end then
        (case parse_int_step result (char_at str i) of
           None \<Rightarrow> None
         | Some result' \<Rightarrow> parse_int_loop str (i + 1) end result')
      else Some result)"
  by pat_completeness auto
termination
  by (relation "measure (\<lambda>(str, i, end, result). end - i)") auto

declare parse_int_loop.simps [simp del]

definition parse_int :: "string option \<Rightarrow> nat \<Rightarrow> nat \<Rightarrow> int option" where
  "parse_int str start end =
     (case str of
        None \<Rightarrow> None
      | Some s \<Rightarrow>
          if start \<ge> end \<or> char_at s 0 = NUL then None
          else parse_int_loop s start end 0)"

section \<open>is_valid_ipv4_address\<close>

text \<open>
  The loop \<^verbatim>\<open>for (i = 0; i <= len; i++)\<close> of is_valid_ipv4_address, with its local
  variables as arguments. Leaving the loop by \<^verbatim>\<open>break\<close> or by its condition is
  followed by \<^verbatim>\<open>return octet_count == 4\<close>.
\<close>

function ipv4_loop :: "string \<Rightarrow> nat \<Rightarrow> nat \<Rightarrow> int \<Rightarrow> nat \<Rightarrow> bool" where
  "ipv4_loop str len i octet_count octet_start =
     (if i \<le> len then
        (if char_at str i = CHR ''.'' \<or> char_at str i = NUL then
           (if i = octet_start then False
            else
              (case parse_int (Some str) octet_start i of
                 None \<Rightarrow> False
               | Some octet_value \<Rightarrow>
                   if octet_value > 255 then False
                   else if char_at str i = NUL then octet_count + 1 = 4
                   else ipv4_loop str len (i + 1) (octet_count + 1) (i + 1)))
         else if \<not> isdigit (char_at str i) then False
         else ipv4_loop str len (i + 1) octet_count octet_start)
      else octet_count = 4)"
  by pat_completeness auto
termination
  by (relation "measure (\<lambda>(str, len, i, octet_count, octet_start). Suc len - i)") auto

declare ipv4_loop.simps [simp del]

definition is_valid_ipv4_address :: "string option \<Rightarrow> bool" where
  "is_valid_ipv4_address str =
     (case str of
        None \<Rightarrow> False
      | Some s \<Rightarrow> ipv4_loop s (strnlen s MAX_SIZE_IPV4) 0 0 0)"

section \<open>is_valid_ipv6_address\<close>

text \<open>
  \<open>hex_digit_value\<close> returns -1 for a character that is not a hex digit. The local
  variables of is_valid_ipv6_address are the record \<open>ipv6_state\<close>; \<open>val\<close> is an
  \<^verbatim>\<open>unsigned int\<close>.
\<close>

definition hex_digit_value :: "char \<Rightarrow> int" where
  "hex_digit_value ch =
     (if CHR ''0'' \<le> ch \<and> ch \<le> CHR ''9'' then of_char ch - of_char CHR ''0''
      else if CHR ''a'' \<le> ch \<and> ch \<le> CHR ''f'' then of_char ch - of_char CHR ''a'' + 10
      else if CHR ''A'' \<le> ch \<and> ch \<le> CHR ''F'' then of_char ch - of_char CHR ''A'' + 10
      else - 1)"

record ipv6_state =
  src :: nat
  group_count :: int
  has_compression :: bool
  curtok :: nat
  xdigits_seen :: nat
  val :: "32 word"

text \<open>
  The inner loop of the IPv4 suffix branch: it counts the dots from \<open>curtok\<close> to
  \<open>src_endp\<close>, and returns \<open>None\<close> where the code returns false on a character
  that is neither a dot nor a digit.
\<close>

function ipv4_suffix_scan :: "string \<Rightarrow> nat \<Rightarrow> nat \<Rightarrow> int \<Rightarrow> int option" where
  "ipv4_suffix_scan str p src_endp dots =
     (if p < src_endp then
        (if char_at str p = CHR ''.'' then ipv4_suffix_scan str (p + 1) src_endp (dots + 1)
         else if \<not> isdigit (char_at str p) then None
         else ipv4_suffix_scan str (p + 1) src_endp dots)
      else Some dots)"
  by pat_completeness auto
termination
  by (relation "measure (\<lambda>(str, p, src_endp, dots). src_endp - p)") auto

declare ipv4_suffix_scan.simps [simp del]

text \<open>
  \<open>ipv6_step\<close> is one iteration of \<^verbatim>\<open>while (src < src_endp)\<close>: it ends in
  \<^verbatim>\<open>return false\<close> (\<open>Reject\<close>), in \<^verbatim>\<open>continue\<close> or in \<^verbatim>\<open>break\<close>, the last
  two with the updated variables. \<open>ipv6_loop\<close> runs the loop: \<open>None\<close> when an
  iteration returned false, and otherwise the variables when the loop is left.
\<close>

datatype ipv6_step_result = Reject | Continue ipv6_state | Break ipv6_state

definition ipv6_step :: "string \<Rightarrow> nat \<Rightarrow> ipv6_state \<Rightarrow> ipv6_step_result" where
  "ipv6_step str src_endp st =
     (let ch = char_at str (src st);
          st = st\<lparr>src := src st + 1\<rparr>;
          digit = hex_digit_value ch
      in
        if digit \<ge> 0 then
          (if xdigits_seen st = 4 then Reject
           else
             let v = push_bit 4 (val st) OR word_of_int digit in
               if v > 0xffff then Reject
               else Continue (st\<lparr>val := v, xdigits_seen := xdigits_seen st + 1\<rparr>))
        else if ch = CHR '':'' then
          (let st = st\<lparr>curtok := src st\<rparr> in
             if xdigits_seen st = 0 then
               (if has_compression st then Reject
                else Continue (st\<lparr>has_compression := True\<rparr>))
             else if src st = src_endp then Reject
             else if group_count st + 1 > 8 then Reject
             else Continue (st\<lparr>group_count := group_count st + 1, xdigits_seen := 0, val := 0\<rparr>))
        else if ch = CHR ''.'' \<and> xdigits_seen st > 0 then
          (case ipv4_suffix_scan str (curtok st) src_endp 0 of
             None \<Rightarrow> Reject
           | Some dots \<Rightarrow>
               if dots \<noteq> 3 then Reject
               else if \<not> is_valid_ipv4_address (Some (drop (curtok st) str)) then Reject
               else Break (st\<lparr>group_count := group_count st + 2, xdigits_seen := 0\<rparr>))
        else Reject)"

function ipv6_loop :: "string \<Rightarrow> nat \<Rightarrow> ipv6_state \<Rightarrow> ipv6_state option" where
  "ipv6_loop str src_endp st =
     (if src st < src_endp then
        (case ipv6_step str src_endp st of
           Reject \<Rightarrow> None
         | Break st' \<Rightarrow> Some st'
         | Continue st' \<Rightarrow> ipv6_loop str src_endp st')
      else Some st)"
  by pat_completeness auto
termination
  by (relation "measure (\<lambda>(str, src_endp, st). src_endp - src st)")
     (auto simp: ipv6_step_def Let_def split: if_splits option.splits)

declare ipv6_loop.simps [simp del]

text \<open>
  After the loop: a pending group is counted (\<open>final_group_count\<close>), and the count
  is tested against the compression flag (\<open>ipv6_finish\<close>). Before the loop
  (\<open>ipv6_start\<close>): the test for an empty window and the leading colon.
\<close>

definition final_group_count :: "ipv6_state \<Rightarrow> int" where
  "final_group_count st = (if xdigits_seen st > 0 then group_count st + 1 else group_count st)"

definition ipv6_finish :: "ipv6_state \<Rightarrow> bool" where
  "ipv6_finish st =
     (let group_count = final_group_count st in
        if xdigits_seen st > 0 \<and> group_count > 8 then False
        else if has_compression st then (if group_count \<ge> 8 then False else True)
        else (if group_count \<noteq> 8 then False else True))"

definition ipv6_start :: "string \<Rightarrow> nat \<Rightarrow> ipv6_state option" where
  "ipv6_start str src_endp =
     (if 0 = src_endp then None
      else if char_at str 0 = CHR '':'' then
        (if 1 = src_endp \<or> char_at str 1 \<noteq> CHR '':'' then None
         else Some \<lparr>src = 1, group_count = 0, has_compression = False, curtok = 1,
                     xdigits_seen = 0, val = 0\<rparr>)
      else Some \<lparr>src = 0, group_count = 0, has_compression = False, curtok = 0,
                  xdigits_seen = 0, val = 0\<rparr>)"

definition ipv6_scan :: "string \<Rightarrow> ipv6_state option" where
  "ipv6_scan str =
     (let src_endp = strnlen str INET6_ADDRSTRLEN in
        case ipv6_start str src_endp of
          None \<Rightarrow> None
        | Some st \<Rightarrow> ipv6_loop str src_endp st)"

definition is_valid_ipv6_address :: "string option \<Rightarrow> bool" where
  "is_valid_ipv6_address str =
     (case str of
        None \<Rightarrow> False
      | Some s \<Rightarrow>
          if char_at s 0 = NUL then False
          else (case ipv6_scan s of None \<Rightarrow> False | Some st \<Rightarrow> ipv6_finish st))"

section \<open>The grammars of the specification\<close>

text \<open>
  The specification's dotted quad, written from its words and not from the code:
  the string is split at its dots (\<open>spec_dot_segments\<close>), there are exactly four
  segments, and each is non-empty, made of ASCII digits, with a decimal value of at
  most 255. \<open>spec_dotted\<close> joins four segments with dots, and \<open>spec_zero_pad\<close>
  puts zeros in front of a segment. A hexadecimal group of the specification has one
  to four hex digits, and \<open>spec_colon_join\<close> joins groups with single colons.
\<close>

fun spec_dot_segments :: "string \<Rightarrow> string list" where
  "spec_dot_segments [] = [[]]"
| "spec_dot_segments (c # cs) =
     (if c = CHR ''.'' then [] # spec_dot_segments cs
      else (case spec_dot_segments cs of
              [] \<Rightarrow> [[c]]
            | seg # segs \<Rightarrow> (c # seg) # segs))"

definition spec_decimal_value :: "string \<Rightarrow> int" where
  "spec_decimal_value seg = foldl (\<lambda>acc c. acc * 10 + (of_char c - of_char CHR ''0'')) 0 seg"

definition spec_valid_octet :: "string \<Rightarrow> bool" where
  "spec_valid_octet seg = (seg \<noteq> [] \<and> list_all isdigit seg \<and> spec_decimal_value seg \<le> 255)"

definition spec_ipv4_dotted_quad :: "string \<Rightarrow> bool" where
  "spec_ipv4_dotted_quad s =
     (length (spec_dot_segments s) = 4 \<and> list_all spec_valid_octet (spec_dot_segments s))"

text \<open>
  For the proofs: the characters from index \<open>a\<close> up to index \<open>b\<close>, the step of the
  decimal accumulator, and the IPv4 scan as a recursion on the characters still to
  read, with the current segment \<open>cur\<close> in place of \<open>octet_start\<close>.
\<close>

definition slice :: "string \<Rightarrow> nat \<Rightarrow> nat \<Rightarrow> string" where
  "slice s a b = take (b - a) (drop a s)"

abbreviation accum :: "int \<Rightarrow> char \<Rightarrow> int" where
  "accum \<equiv> (\<lambda>acc c. acc * 10 + (of_char c - of_char CHR ''0''))"

fun quad_from :: "int \<Rightarrow> string \<Rightarrow> string \<Rightarrow> bool" where
  "quad_from cnt cur [] = (cur \<noteq> [] \<and> spec_decimal_value cur \<le> 255 \<and> cnt + 1 = 4)"
| "quad_from cnt cur (c # cs) =
     (if c = CHR ''.'' then cur \<noteq> [] \<and> spec_decimal_value cur \<le> 255 \<and> quad_from (cnt + 1) [] cs
      else isdigit c \<and> quad_from cnt (cur @ [c]) cs)"

definition spec_zero_pad :: "nat \<Rightarrow> string \<Rightarrow> string" where
  "spec_zero_pad k seg = replicate k CHR ''0'' @ seg"

definition spec_dotted :: "string \<Rightarrow> string \<Rightarrow> string \<Rightarrow> string \<Rightarrow> string" where
  "spec_dotted a b c d = a @ ''.'' @ b @ ''.'' @ c @ ''.'' @ d"

definition spec_hex_group :: "string \<Rightarrow> bool" where
  "spec_hex_group g =
     (1 \<le> length g \<and> length g \<le> 4 \<and> list_all (\<lambda>c. 0 \<le> hex_digit_value c) g)"

fun spec_colon_join :: "string list \<Rightarrow> string" where
  "spec_colon_join [] = []"
| "spec_colon_join [g] = g"
| "spec_colon_join (g # gs) = g @ CHR '':'' # spec_colon_join gs"

section \<open>The branches of the IPv6 scan step\<close>

lemma ipv6_step_hex:
  "0 \<le> hex_digit_value (char_at str (src st)) \<Longrightarrow>
   ipv6_step str src_endp st =
     (if xdigits_seen st = 4 then Reject
      else if push_bit 4 (val st) OR word_of_int (hex_digit_value (char_at str (src st))) > 0xffff
        then Reject
      else Continue (st\<lparr>src := src st + 1,
              val := push_bit 4 (val st) OR word_of_int (hex_digit_value (char_at str (src st))),
              xdigits_seen := xdigits_seen st + 1\<rparr>))"
  by (simp add: ipv6_step_def Let_def)

lemma ipv6_step_colon:
  "char_at str (src st) = CHR '':'' \<Longrightarrow>
   ipv6_step str src_endp st =
     (if xdigits_seen st = 0 then
        (if has_compression st then Reject
         else Continue (st\<lparr>src := src st + 1, curtok := src st + 1, has_compression := True\<rparr>))
      else if src st + 1 = src_endp then Reject
      else if group_count st + 1 > 8 then Reject
      else Continue (st\<lparr>src := src st + 1, curtok := src st + 1,
              group_count := group_count st + 1, xdigits_seen := 0, val := 0\<rparr>))"
  by (simp add: ipv6_step_def Let_def hex_digit_value_def less_eq_char_def)

lemma ipv6_step_dot:
  "char_at str (src st) = CHR ''.'' \<Longrightarrow>
   ipv6_step str src_endp st =
     (if xdigits_seen st > 0
         \<and> ipv4_suffix_scan str (curtok st) src_endp 0 = Some 3
         \<and> is_valid_ipv4_address (Some (drop (curtok st) str))
      then Break (st\<lparr>src := src st + 1, group_count := group_count st + 2, xdigits_seen := 0\<rparr>)
      else Reject)"
  by (simp add: ipv6_step_def Let_def hex_digit_value_def less_eq_char_def split: option.split)

lemma ipv6_step_other:
  "hex_digit_value (char_at str (src st)) < 0 \<Longrightarrow> char_at str (src st) \<noteq> CHR '':'' \<Longrightarrow>
   char_at str (src st) \<noteq> CHR ''.'' \<Longrightarrow> ipv6_step str src_endp st = Reject"
  by (simp add: ipv6_step_def Let_def)

lemma ipv6_step_src:
  "ipv6_step str src_endp st = Continue st' \<Longrightarrow> src st' = src st + 1"
proof -
  assume a: "ipv6_step str src_endp st = Continue st'"
  consider (hex) "0 \<le> hex_digit_value (char_at str (src st))"
    | (colon) "char_at str (src st) = CHR '':''"
    | (dot) "char_at str (src st) = CHR ''.''"
    | (other) "hex_digit_value (char_at str (src st)) < 0" "char_at str (src st) \<noteq> CHR '':''"
        "char_at str (src st) \<noteq> CHR ''.''"
    by linarith
  then show ?thesis
  proof cases
    case hex
    with a show ?thesis by (auto simp: ipv6_step_hex split: if_splits)
  next
    case colon
    with a show ?thesis by (auto simp: ipv6_step_colon split: if_splits)
  next
    case dot
    with a show ?thesis by (auto simp: ipv6_step_dot split: if_splits)
  next
    case other
    with a show ?thesis by (simp add: ipv6_step_other)
  qed
qed

section \<open>Null and empty inputs\<close>

text \<open>
  C8: for the null pointer and for the empty string, both validators return false.
  Both validators are total functions into \<open>bool\<close> (every loop above has a
  termination proof), so false is the only failure outcome they have.
\<close>

theorem null_and_empty_rejected:
  "is_valid_ipv4_address None = False \<and> is_valid_ipv4_address (Some []) = False \<and>
   is_valid_ipv6_address None = False \<and> is_valid_ipv6_address (Some []) = False"
  by (simp add: is_valid_ipv4_address_def is_valid_ipv6_address_def char_at_def
      strnlen_def ipv4_loop.simps [of "[]"])

section \<open>Inputs longer than the longest dotted quad\<close>

text \<open>
  C2: every string longer than 15 characters is rejected by is_valid_ipv4_address.
  The code does not do this. A 16-character string of four zero-padded octets is
  accepted, and so is a longer string whose first 16 characters are four octets and
  whose character at index 16 is a dot: the loop stops at index 16 without having seen
  the terminator and returns \<open>octet_count == 4\<close>.
\<close>

theorem ipv4_accepts_over_long_input:
  "length ''0001.0001.0001.1'' = 16 \<and>
   is_valid_ipv4_address (Some ''0001.0001.0001.1'') = True \<and>
   is_valid_ipv4_address (Some ''001.001.001.0001.garbage'') = True"
  by code_simp

section \<open>IPv6 inputs longer than 45 characters\<close>

text \<open>
  C10: is_valid_ipv6_address returns false for every input longer than 45 characters.
  The code does not do this. Six full groups followed by a 16-character zero-padded
  IPv4 suffix is a 46-character string that is accepted, and the same prefix followed
  by an IPv4 suffix that continues past the 46-character window is accepted as well,
  because the suffix is handed to is_valid_ipv4_address untruncated.
\<close>

theorem ipv6_accepts_over_long_input:
  "length ''1111:2222:3333:4444:5555:6666:0001.0001.0001.1'' = 46 \<and>
   is_valid_ipv6_address (Some ''1111:2222:3333:4444:5555:6666:0001.0001.0001.1'') = True \<and>
   is_valid_ipv6_address (Some ''1111:2222:3333:4444:5555:6666:001.001.001.0001.garbage'') = True"
  by code_simp

section \<open>The decimal accumulator of parse_int\<close>

lemma isdigit_digit_range:
  "isdigit c \<Longrightarrow> 0 \<le> (of_char c - of_char CHR ''0'' :: int) \<and> (of_char c - of_char CHR ''0'' :: int) \<le> 9"
proof -
  assume "isdigit c"
  then have "48 \<le> (of_char c :: nat)" "(of_char c :: nat) \<le> 57"
    by (simp_all add: isdigit_def less_eq_char_def)
  moreover have "(of_char c :: int) = int (of_char c)"
    by (simp add: of_nat_of_char)
  ultimately show ?thesis by simp
qed

lemma parse_int_step_bounds:
  assumes "0 \<le> r" "r \<le> 255" "parse_int_step r c = Some r'"
  shows "0 \<le> r' \<and> r' \<le> 255"
proof -
  from assms(3) have d: "isdigit c"
    by (simp add: parse_int_step_def split: if_splits)
  note rng = isdigit_digit_range [OF d]
  from assms(3) d have "r' = r * 10 + (of_char c - of_char CHR ''0'')"
    and "\<not> (r > 25 \<or> (r = 25 \<and> (of_char c - of_char CHR ''0'' :: int) > 5))"
    by (auto simp: parse_int_step_def split: if_splits)
  with rng assms(1) show ?thesis by auto
qed

lemma parse_int_step_rejects_iff:
  assumes "0 \<le> r" "isdigit c"
  shows "(parse_int_step r c = None) = (255 < r * 10 + (of_char c - of_char CHR ''0''))"
  using isdigit_digit_range [OF assms(2)] assms
  by (auto simp: parse_int_step_def)

lemma parse_int_loop_bounds:
  "0 \<le> r \<Longrightarrow> r \<le> 255 \<Longrightarrow> parse_int_loop str i e r = Some v \<Longrightarrow> 0 \<le> v \<and> v \<le> 255"
proof (induction str i e r rule: parse_int_loop.induct)
  case (1 str i e r)
  show ?case
  proof (cases "i < e")
    case False
    with "1.prems" show ?thesis by (simp add: parse_int_loop.simps [of str i e r])
  next
    case True
    with "1.prems"(3) obtain r' where s: "parse_int_step r (char_at str i) = Some r'"
      and l: "parse_int_loop str (i + 1) e r' = Some v"
      by (auto simp: parse_int_loop.simps [of str i e r] split: option.splits)
    from parse_int_step_bounds [OF "1.prems"(1,2) s] have "0 \<le> r'" "r' \<le> 255" by simp_all
    with "1.IH" [OF True s] l show ?thesis by simp
  qed
qed

lemma parse_int_bounds:
  "parse_int str start e = Some v \<Longrightarrow> 0 \<le> v \<and> v \<le> 255"
  by (auto simp: parse_int_def split: option.splits if_splits dest: parse_int_loop_bounds [rotated 2])

text \<open>
  C6: the accumulator of parse_int never exceeds 255. The accumulator starts at 0 and
  changes only through the loop body \<open>parse_int_step\<close>: a step from a value in
  [0,255] that succeeds gives a value in [0,255]; on a digit the step rejects, before
  the multiply-add, exactly when the multiply-add would exceed 255; so every result
  of a successful parse_int is in [0,255] and the caller's test \<open>octet_value > 255\<close>
  is never true, and \<open>99999999999.1.1.1\<close> is rejected.
\<close>

theorem parse_int_accumulator_never_exceeds_255:
  "(0 \<le> r \<and> r \<le> 255 \<and> parse_int_step r c = Some r' \<longrightarrow> 0 \<le> r' \<and> r' \<le> 255) \<and>
   (0 \<le> r \<and> isdigit c \<longrightarrow>
      (parse_int_step r c = None) = (255 < r * 10 + (of_char c - of_char CHR ''0''))) \<and>
   (parse_int str start e = Some v \<longrightarrow> 0 \<le> v \<and> \<not> v > 255) \<and>
   is_valid_ipv4_address (Some ''99999999999.1.1.1'') = False"
proof -
  have "is_valid_ipv4_address (Some ''99999999999.1.1.1'') = False"
    by code_simp
  moreover have "parse_int str start e = Some v \<longrightarrow> 0 \<le> v \<and> \<not> v > 255"
    using parse_int_bounds [of str start e v] by auto
  ultimately show ?thesis
    using parse_int_step_bounds [of r c r'] parse_int_step_rejects_iff [of r c]
    by blast
qed

theorem parse_int_accumulator_never_exceeds_255_witness:
  "parse_int_step 25 CHR ''5'' = Some 255 \<and> isdigit CHR ''5'' \<and>
   parse_int_step 25 CHR ''6'' = None \<and>
   parse_int (Some ''255'') 0 3 = Some 255 \<and> (0::int) \<le> 255 \<and> \<not> (255::int) > 255"
proof -
  have a: "parse_int_step 25 CHR ''5'' = Some 255" by code_simp
  have b: "parse_int (Some ''255'') 0 3 = Some 255" by code_simp
  have c: "isdigit CHR ''5''" by code_simp
  have d: "parse_int_step 25 CHR ''6'' = None" by code_simp
  from parse_int_accumulator_never_exceeds_255 [of 25 "CHR ''5''" 255 "Some ''255''" 0 3 255] a b c d
  show ?thesis by simp
qed

section \<open>The IPv4 scan on inputs inside the window\<close>

lemma slice_empty [simp]: "slice s a a = []"
  by (simp add: slice_def)

lemma slice_Cons: "a < b \<Longrightarrow> b \<le> length s \<Longrightarrow> slice s a b = s ! a # slice s (a + 1) b"
  by (simp add: slice_def Cons_nth_drop_Suc [symmetric] Suc_diff_Suc [symmetric])

lemma slice_snoc: "a \<le> b \<Longrightarrow> b < length s \<Longrightarrow> slice s a (b + 1) = slice s a b @ [s ! b]"
  by (simp add: slice_def Suc_diff_le take_Suc_conv_app_nth)

lemma slice_to_end: "slice s a (length s) = drop a s"
  by (simp add: slice_def)

lemma foldl_accum_mono:
  "list_all isdigit xs \<Longrightarrow> 0 \<le> r \<Longrightarrow> r \<le> foldl accum r xs"
proof (induction xs arbitrary: r)
  case Nil
  then show ?case by simp
next
  case (Cons c cs)
  from Cons.prems have d: "isdigit c" and ds: "list_all isdigit cs" by simp_all
  from isdigit_digit_range [OF d] Cons.prems(2) have "r \<le> accum r c" "0 \<le> accum r c" by auto
  with Cons.IH [OF ds, of "accum r c"] show ?case by simp
qed

lemma parse_int_loop_digits:
  "i \<le> e \<Longrightarrow> e \<le> length s \<Longrightarrow> list_all isdigit (slice s i e) \<Longrightarrow> 0 \<le> r \<Longrightarrow>
   r \<le> 255 \<Longrightarrow>
   parse_int_loop s i e r =
     (if foldl accum r (slice s i e) \<le> 255 then Some (foldl accum r (slice s i e)) else None)"
proof (induction s i e r rule: parse_int_loop.induct)
  case (1 str i e r)
  show ?case
  proof (cases "i < e")
    case False
    with "1.prems" have ie: "i = e" by simp
    have "parse_int_loop str e e r = Some r"
      by (simp add: parse_int_loop.simps [of str e e r])
    with ie "1.prems"(5) show ?thesis by simp
  next
    case True
    let ?c = "str ! i"
    from True "1.prems"(2) have sl: "slice str i e = ?c # slice str (i + 1) e"
      by (rule slice_Cons)
    from True "1.prems"(2) have ca: "char_at str i = ?c"
      by (simp add: char_at_def)
    from "1.prems"(3) sl have d: "isdigit ?c" and ds: "list_all isdigit (slice str (i + 1) e)"
      by simp_all
    note rng = isdigit_digit_range [OF d]
    show ?thesis
    proof (cases "parse_int_step r ?c")
      case None
      with parse_int_step_rejects_iff [OF "1.prems"(4) d] have big: "255 < accum r ?c" by simp
      with rng "1.prems"(4) have "0 \<le> accum r ?c" by simp
      from foldl_accum_mono [OF ds this] big have "255 < foldl accum r (slice str i e)"
        by (simp add: sl)
      with None True ca show ?thesis
        by (simp add: parse_int_loop.simps [of str i e r])
    next
      case (Some r')
      with d have r': "r' = accum r ?c"
        by (auto simp: parse_int_step_def split: if_splits)
      with rng "1.prems"(4) have nn: "0 \<le> r'" by simp
      from parse_int_step_bounds [OF "1.prems"(4,5) Some] have le: "r' \<le> 255" by simp
      from True "1.prems"(2) have "i + 1 \<le> e" by simp
      from "1.IH" [OF True _ this "1.prems"(2) ds nn le] Some ca
      have "parse_int_loop str (i + 1) e r' =
        (if foldl accum r' (slice str (i + 1) e) \<le> 255
         then Some (foldl accum r' (slice str (i + 1) e)) else None)"
        by simp
      with Some True ca r' show ?thesis
        by (simp add: parse_int_loop.simps [of str i e r] sl)
    qed
  qed
qed


lemma parse_int_digits:
  assumes "a < b" "b \<le> length s" "list_all isdigit (slice s a b)" "CHR 0x00 \<notin> set s"
  shows "parse_int (Some s) a b =
     (if spec_decimal_value (slice s a b) \<le> 255 then Some (spec_decimal_value (slice s a b)) else None)"
proof -
  from assms(1,2) have "0 < length s" by arith
  with assms(4) have "char_at s 0 \<noteq> NUL"
    by (cases s) (auto simp: char_at_def NUL_def)
  with assms(1) have "parse_int (Some s) a b = parse_int_loop s a b 0"
    by (simp add: parse_int_def)
  with parse_int_loop_digits [of a b s 0] assms show ?thesis
    by (simp add: spec_decimal_value_def)
qed

lemma ipv4_loop_quad_from:
  "CHR 0x00 \<notin> set s \<Longrightarrow> start \<le> i \<Longrightarrow> i \<le> length s \<Longrightarrow>
   list_all isdigit (slice s start i) \<Longrightarrow>
   ipv4_loop s (length s) i cnt start = quad_from cnt (slice s start i) (drop i s)"
proof (induction s "length s" i cnt start rule: ipv4_loop.induct)
  case (1 str i cnt start)
  note nulf = "1.prems"(1)
  note le1 = "1.prems"(2)
  note le2 = "1.prems"(3)
  note digs = "1.prems"(4)
  show ?case
  proof (cases "i = length str")
    case True
    then have ca: "char_at str i = NUL" by (simp add: char_at_def)
    show ?thesis
    proof (cases "i = start")
      case True
      with ca \<open>i = length str\<close> show ?thesis
        by (subst ipv4_loop.simps) simp
    next
      case False
      with le1 have lt: "start < i" by simp
      from parse_int_digits [OF lt le2 digs nulf] False ca \<open>i = length str\<close> lt
      show ?thesis
        by (subst ipv4_loop.simps) (auto simp: slice_def)
    qed
  next
    case False
    with le2 have il: "i < length str" by simp
    then have ca: "char_at str i = str ! i" by (simp add: char_at_def)
    from il nulf have nn: "str ! i \<noteq> NUL" by (auto simp: NUL_def dest: nth_mem)
    from il have dr: "drop i str = str ! i # drop (i + 1) str"
      using Cons_nth_drop_Suc [of i str] by simp
    show ?thesis
    proof (cases "str ! i = CHR ''.''")
      case True
      show ?thesis
      proof (cases "i = start")
        case True
        with ca \<open>str ! i = CHR ''.''\<close> il dr show ?thesis
          by (subst ipv4_loop.simps) simp
      next
        case False
        with le1 have lt: "start < i" by simp
        then have ne: "slice str start i \<noteq> []" using il by (simp add: slice_def)
        note pi = parse_int_digits [OF lt le2 digs nulf]
        show ?thesis
        proof (cases "spec_decimal_value (slice str start i) \<le> 255")
          case False
          with pi ca True il dr \<open>i \<noteq> start\<close> show ?thesis
            by (subst ipv4_loop.simps) simp
        next
          case le: True
          with pi have p: "parse_int (Some str) start i = Some (spec_decimal_value (slice str start i))"
            by simp
          have "ipv4_loop str (length str) (i + 1) (cnt + 1) (i + 1) =
                quad_from (cnt + 1) (slice str (i + 1) (i + 1)) (drop (i + 1) str)"
            apply (rule "1.hyps"(1) [OF _ _ _ p])
            using il ca True nn \<open>i \<noteq> start\<close> le nulf by (simp_all add: NUL_def)
          with p le ca True il dr nn \<open>i \<noteq> start\<close> ne show ?thesis
            by (subst ipv4_loop.simps) simp
        qed
      qed
    next
      case nd: False
      show ?thesis
      proof (cases "isdigit (str ! i)")
        case False
        with ca nd nn il dr show ?thesis
          by (subst ipv4_loop.simps) simp
      next
        case True
        from le1 il have sn: "slice str start (i + 1) = slice str start i @ [str ! i]"
          by (rule slice_snoc)
        have "ipv4_loop str (length str) (i + 1) cnt start =
                quad_from cnt (slice str start (i + 1)) (drop (i + 1) str)"
          apply (rule "1.hyps"(2))
          using il ca True nn nd "1.prems" sn by simp_all
        with ca nd nn il dr True sn show ?thesis
          by (subst ipv4_loop.simps) simp
      qed
    qed
  qed
qed


lemma spec_dot_segments_nonempty [simp]: "spec_dot_segments s \<noteq> []"
  by (induction s) (simp_all split: list.split)

lemma spec_dot_segments_Cons:
  "spec_dot_segments (c # cs) =
     (if c = CHR ''.'' then [] # spec_dot_segments cs
      else (c # hd (spec_dot_segments cs)) # tl (spec_dot_segments cs))"
  by (cases "spec_dot_segments cs") simp_all

declare spec_dot_segments.simps(2) [simp del]
declare spec_dot_segments_Cons [simp]

lemma spec_valid_octet_digits: "spec_valid_octet seg \<Longrightarrow> list_all isdigit seg"
  by (simp add: spec_valid_octet_def)

lemma quad_from_spec:
  "list_all isdigit cur \<Longrightarrow>
   quad_from cnt cur rest =
     (spec_valid_octet (cur @ hd (spec_dot_segments rest)) \<and>
      list_all spec_valid_octet (tl (spec_dot_segments rest)) \<and>
      cnt + int (length (spec_dot_segments rest)) = 4)"
proof (induction rest arbitrary: cnt cur)
  case Nil
  then show ?case by (simp add: spec_valid_octet_def)
next
  case (Cons c cs)
  let ?segs = "spec_dot_segments cs"
  have split: "list_all spec_valid_octet ?segs =
      (spec_valid_octet (hd ?segs) \<and> list_all spec_valid_octet (tl ?segs))"
    by (cases ?segs) simp_all
  have len: "Suc (length (tl ?segs)) = length ?segs"
    by (cases ?segs) simp_all
  show ?case
  proof (cases "c = CHR ''.''")
    case True
    from Cons.prems have v: "spec_valid_octet cur = (cur \<noteq> [] \<and> spec_decimal_value cur \<le> 255)"
      by (simp add: spec_valid_octet_def)
    have "quad_from (cnt + 1) [] cs =
       (spec_valid_octet (hd ?segs) \<and> list_all spec_valid_octet (tl ?segs) \<and>
        cnt + 1 + int (length ?segs) = 4)"
      using Cons.IH [of "[]" "cnt + 1"] by simp
    with True v split show ?thesis by auto
  next
    case False
    show ?thesis
    proof (cases "isdigit c")
      case True
      with Cons.prems have "list_all isdigit (cur @ [c])" by simp
      from Cons.IH [OF this, of cnt] False True show ?thesis
        by (simp add: len del: length_tl)
    next
      case nd: False
      then have "\<not> spec_valid_octet (cur @ c # hd ?segs)"
        by (simp add: spec_valid_octet_def)
      with False nd show ?thesis by simp
    qed
  qed
qed

lemma strnlen_no_nul:
  "CHR 0x00 \<notin> set s \<Longrightarrow> strnlen s n = min (length s) n"
proof -
  assume "CHR 0x00 \<notin> set s"
  then have "\<forall>c \<in> set (take n s). c \<noteq> NUL"
    by (auto simp: NUL_def dest: in_set_takeD)
  then have tw: "takeWhile (\<lambda>c. c \<noteq> NUL) (take n s) = take n s"
    by simp
  show ?thesis unfolding strnlen_def tw by simp
qed

lemma ipv4_within_window:
  assumes "CHR 0x00 \<notin> set s" "length s \<le> 16"
  shows "is_valid_ipv4_address (Some s) = spec_ipv4_dotted_quad s"
proof -
  from assms have "strnlen s MAX_SIZE_IPV4 = length s"
    by (simp add: strnlen_no_nul MAX_SIZE_IPV4_def)
  then have "is_valid_ipv4_address (Some s) = ipv4_loop s (length s) 0 0 0"
    by (simp add: is_valid_ipv4_address_def)
  also from assms(1) have "\<dots> = quad_from 0 (slice s 0 0) (drop 0 s)"
    by (rule ipv4_loop_quad_from) simp_all
  also have "\<dots> = quad_from 0 [] s" by simp
  also have "\<dots> = spec_ipv4_dotted_quad s"
    by (cases "spec_dot_segments s") (auto simp: quad_from_spec spec_ipv4_dotted_quad_def)
  finally show ?thesis .
qed


section \<open>The IPv4 validator and the dotted-quad grammar\<close>

text \<open>
  C1, as amended: for every string of at most 15 characters (the longest dotted quad),
  is_valid_ipv4_address returns true if and only if the string consists of exactly
  four dot-separated segments, each non-empty, made of ASCII digits only, with a
  decimal value in [0,255]. The string is the content of the C string, so it holds
  no NUL.
\<close>

theorem ipv4_accepts_iff_dotted_quad:
  "CHR 0x00 \<notin> set s \<Longrightarrow> length s \<le> 15 \<Longrightarrow>
   is_valid_ipv4_address (Some s) = spec_ipv4_dotted_quad s"
  by (rule ipv4_within_window) simp_all

theorem ipv4_accepts_iff_dotted_quad_witness:
  "CHR 0x00 \<notin> set ''255.255.255.255'' \<and> length ''255.255.255.255'' \<le> 15 \<and>
   is_valid_ipv4_address (Some ''255.255.255.255'') \<and> spec_ipv4_dotted_quad ''255.255.255.255''"
proof -
  have a: "CHR 0x00 \<notin> set ''255.255.255.255''" by simp
  have b: "length ''255.255.255.255'' \<le> 15" by simp
  have c: "spec_ipv4_dotted_quad ''255.255.255.255''" by code_simp
  from ipv4_accepts_iff_dotted_quad [OF a b] c show ?thesis using a b by simp
qed

text \<open>
  C1 as stated, for every string, does not hold: a dotted quad whose zero-padded
  first segment makes it longer than the 16-character window satisfies the grammar
  and is rejected.
\<close>

theorem ipv4_zero_padded_quad_rejected:
  "spec_ipv4_dotted_quad ''0000000000000001.1.1.1'' \<and>
   \<not> is_valid_ipv4_address (Some ''0000000000000001.1.1.1'')"
  by code_simp

section \<open>Leading zeros\<close>

lemma isdigit_zero: "isdigit CHR ''0''"
  by (simp add: isdigit_def)

lemma isdigit_not_dot: "isdigit c \<Longrightarrow> c \<noteq> CHR ''.''"
  by (auto simp: isdigit_def less_eq_char_def)

lemma isdigit_not_nul: "isdigit c \<Longrightarrow> c \<noteq> CHR 0x00"
  by (auto simp: isdigit_def less_eq_char_def)

lemma spec_decimal_value_zero_pad:
  "spec_decimal_value (spec_zero_pad k seg) = spec_decimal_value seg"
  by (induction k) (simp_all add: spec_decimal_value_def spec_zero_pad_def)

lemma spec_valid_octet_zero_pad:
  "spec_valid_octet seg \<Longrightarrow> spec_valid_octet (spec_zero_pad k seg)"
proof -
  assume v: "spec_valid_octet seg"
  then have "list_all isdigit (spec_zero_pad k seg)"
    by (induction k) (simp_all add: spec_valid_octet_def spec_zero_pad_def isdigit_zero)
  moreover from v have "spec_zero_pad k seg \<noteq> []"
    by (simp add: spec_valid_octet_def spec_zero_pad_def)
  ultimately show ?thesis
    using v by (simp add: spec_valid_octet_def spec_decimal_value_zero_pad)
qed

lemma spec_dot_segments_digits:
  "list_all isdigit a \<Longrightarrow>
   spec_dot_segments (a @ rest) =
     (a @ hd (spec_dot_segments rest)) # tl (spec_dot_segments rest)"
  by (induction a) (auto dest: isdigit_not_dot)

lemma spec_dot_segments_digits_dot:
  "list_all isdigit a \<Longrightarrow> spec_dot_segments (a @ CHR ''.'' # rest) = a # spec_dot_segments rest"
  by (simp add: spec_dot_segments_digits)

lemma spec_dot_segments_digits_only:
  "list_all isdigit a \<Longrightarrow> spec_dot_segments a = [a]"
  using spec_dot_segments_digits [of a "[]"] by simp

lemma spec_dotted_segments:
  assumes "list_all isdigit a" "list_all isdigit b" "list_all isdigit c" "list_all isdigit d"
  shows "spec_dot_segments (spec_dotted a b c d) = [a, b, c, d]"
proof -
  have e: "spec_dotted a b c d = a @ CHR ''.'' # (b @ CHR ''.'' # (c @ CHR ''.'' # d))"
    by (simp add: spec_dotted_def)
  show ?thesis
    unfolding e
    by (simp only: spec_dot_segments_digits_dot [OF assms(1)]
        spec_dot_segments_digits_dot [OF assms(2)] spec_dot_segments_digits_dot [OF assms(3)]
        spec_dot_segments_digits_only [OF assms(4)])
qed

lemma digits_no_nul: "list_all isdigit a \<Longrightarrow> CHR 0x00 \<notin> set a"
  by (auto simp: list_all_iff dest: isdigit_not_nul)

lemma spec_dotted_quad:
  assumes "spec_valid_octet a" "spec_valid_octet b" "spec_valid_octet c" "spec_valid_octet d"
  shows "spec_ipv4_dotted_quad (spec_dotted a b c d)"
    and "CHR 0x00 \<notin> set (spec_dotted a b c d)"
proof -
  note digs = assms [THEN spec_valid_octet_digits]
  from assms show "spec_ipv4_dotted_quad (spec_dotted a b c d)"
    unfolding spec_ipv4_dotted_quad_def spec_dotted_segments [OF digs] by simp
  from digs [THEN digits_no_nul] show "CHR 0x00 \<notin> set (spec_dotted a b c d)"
    unfolding spec_dotted_def by simp
qed

text \<open>
  C9, as amended: for four segments that are non-empty, all digits and of value at
  most 255, the dotted quad is accepted, and it is still accepted after any of its
  segments are padded with leading zeros, as long as the padded string has at most
  15 characters.
\<close>

theorem ipv4_zero_padding_keeps_verdict:
  assumes "spec_valid_octet a" "spec_valid_octet b" "spec_valid_octet c" "spec_valid_octet d"
    and "length (spec_dotted (spec_zero_pad ka a) (spec_zero_pad kb b)
                   (spec_zero_pad kc c) (spec_zero_pad kd d)) \<le> 15"
  shows "is_valid_ipv4_address (Some (spec_dotted a b c d)) \<and>
         is_valid_ipv4_address (Some (spec_dotted (spec_zero_pad ka a) (spec_zero_pad kb b)
                   (spec_zero_pad kc c) (spec_zero_pad kd d)))"
proof -
  let ?p = "spec_dotted (spec_zero_pad ka a) (spec_zero_pad kb b)
              (spec_zero_pad kc c) (spec_zero_pad kd d)"
  have "length (spec_dotted a b c d) \<le> length ?p"
    by (simp add: spec_dotted_def spec_zero_pad_def)
  with assms(5) have "length (spec_dotted a b c d) \<le> 16" by simp
  with spec_dotted_quad [OF assms(1-4)] have 1: "is_valid_ipv4_address (Some (spec_dotted a b c d))"
    by (simp add: ipv4_within_window)
  note padded = assms(1-4) [THEN spec_valid_octet_zero_pad]
  from spec_dotted_quad [OF padded(1) [of ka] padded(2) [of kb] padded(3) [of kc] padded(4) [of kd]]
    assms(5)
  have "is_valid_ipv4_address (Some ?p)"
    by (simp add: ipv4_within_window)
  with 1 show ?thesis by simp
qed

theorem ipv4_zero_padding_keeps_verdict_witness:
  "spec_valid_octet ''12'' \<and> spec_valid_octet ''1'' \<and> spec_valid_octet ''2'' \<and> spec_valid_octet ''3'' \<and>
   spec_dotted (spec_zero_pad 1 ''12'') (spec_zero_pad 0 ''1'') (spec_zero_pad 2 ''2'')
      (spec_zero_pad 0 ''3'') = ''012.1.002.3'' \<and>
   length ''012.1.002.3'' \<le> 15 \<and>
   is_valid_ipv4_address (Some ''12.1.2.3'') \<and>
   is_valid_ipv4_address (Some ''012.1.002.3'')"
proof -
  have v: "spec_valid_octet ''12''" "spec_valid_octet ''1''" "spec_valid_octet ''2''"
    "spec_valid_octet ''3''"
    by code_simp+
  have e: "spec_dotted (spec_zero_pad 1 ''12'') (spec_zero_pad 0 ''1'') (spec_zero_pad 2 ''2'')
      (spec_zero_pad 0 ''3'') = ''012.1.002.3''"
    by code_simp
  have e0: "spec_dotted ''12'' ''1'' ''2'' ''3'' = ''12.1.2.3''"
    by code_simp
  have l: "length ''012.1.002.3'' \<le> 15" by simp
  from ipv4_zero_padding_keeps_verdict [OF v, of 1 0 2 0] e e0 l v show ?thesis
    by simp
qed

text \<open>
  C9 as stated, without the bound on the length, does not hold: the verdict can
  change from true to false. Ten leading zeros on the first segment of
  \<open>1.1.1.1\<close> give a 17-character string that is rejected.
\<close>

theorem ipv4_long_zero_padding_rejected:
  "spec_valid_octet ''1'' \<and>
   is_valid_ipv4_address (Some (spec_dotted ''1'' ''1'' ''1'' ''1'')) \<and>
   spec_dotted (spec_zero_pad 10 ''1'') ''1'' ''1'' ''1'' = ''00000000001.1.1.1'' \<and>
   \<not> is_valid_ipv4_address (Some ''00000000001.1.1.1'')"
  by code_simp

section \<open>The IPv6 scan loop\<close>

lemma strnlen_le_length: "strnlen s n \<le> length s"
proof -
  have "length (takeWhile (\<lambda>c. c \<noteq> NUL) (take n s)) \<le> length (take n s)"
    by (rule length_takeWhile_le)
  then show ?thesis by (simp add: strnlen_def)
qed

lemma strnlen_zero_iff: "(strnlen s n = 0) = (n = 0 \<or> char_at s 0 = NUL)"
  by (cases s; cases n) (auto simp: strnlen_def char_at_def)

lemma hex_digit_value_colon [simp]: "hex_digit_value CHR '':'' = - 1"
  by (simp add: hex_digit_value_def less_eq_char_def)

lemma hex_digit_value_dot [simp]: "hex_digit_value CHR ''.'' = - 1"
  by (simp add: hex_digit_value_def less_eq_char_def)

lemma ipv6_loop_Reject:
  "src st < src_endp \<Longrightarrow> ipv6_step str src_endp st = Reject \<Longrightarrow> ipv6_loop str src_endp st = None"
  by (simp add: ipv6_loop.simps [of str src_endp st])

lemma ipv6_loop_Continue:
  "src st < src_endp \<Longrightarrow> ipv6_step str src_endp st = Continue st' \<Longrightarrow>
   ipv6_loop str src_endp st = ipv6_loop str src_endp st'"
  by (simp add: ipv6_loop.simps [of str src_endp st])

lemma ipv6_loop_Break:
  "src st < src_endp \<Longrightarrow> ipv6_step str src_endp st = Break st' \<Longrightarrow>
   ipv6_loop str src_endp st = Some st'"
  by (simp add: ipv6_loop.simps [of str src_endp st])

lemma ipv6_loop_done:
  "\<not> src st < src_endp \<Longrightarrow> ipv6_loop str src_endp st = Some st"
  by (simp add: ipv6_loop.simps [of str src_endp st])

lemma ipv6_five_hex_digits_loop:
  assumes hex: "\<forall>j<5. 0 \<le> hex_digit_value (char_at str (i + j))"
    and nodot: "\<forall>j<i. char_at str j \<noteq> CHR ''.''"
    and win: "i + 5 \<le> src_endp"
  shows "xdigits_seen st \<le> 4 \<Longrightarrow> src st \<le> i + 4 \<Longrightarrow> src st - i \<le> xdigits_seen st \<Longrightarrow>
         ipv6_loop str src_endp st = None"
proof (induction "i + 5 - src st" arbitrary: st rule: less_induct)
  case less
  let ?ch = "char_at str (src st)"
  from less.prems(2) win have inw: "src st < src_endp" by simp
  have at_hex: "0 \<le> hex_digit_value ?ch" if "i \<le> src st"
  proof -
    from that less.prems(2) have "src st - i < 5" "i + (src st - i) = src st" by simp_all
    with hex show ?thesis by metis
  qed
  consider (hex) "0 \<le> hex_digit_value ?ch"
    | (colon) "?ch = CHR '':''"
    | (dot) "?ch = CHR ''.''"
    | (other) "hex_digit_value ?ch < 0" "?ch \<noteq> CHR '':''" "?ch \<noteq> CHR ''.''"
    by linarith
  then show ?case
  proof cases
    case hex
    show ?thesis
    proof (cases "ipv6_step str src_endp st")
      case Reject
      with inw show ?thesis by (rule ipv6_loop_Reject)
    next
      case (Break st')
      with hex show ?thesis by (simp add: ipv6_step_hex split: if_splits)
    next
      case (Continue st')
      with hex have x4: "xdigits_seen st \<noteq> 4"
        and st': "src st' = src st + 1" "xdigits_seen st' = xdigits_seen st + 1"
        by (auto simp: ipv6_step_hex split: if_splits)
      with less.prems have "xdigits_seen st' \<le> 4" "src st' \<le> i + 4" "src st' - i \<le> xdigits_seen st'"
        by simp_all
      moreover from st' less.prems(2) have "i + 5 - src st' < i + 5 - src st" by simp
      ultimately have "ipv6_loop str src_endp st' = None"
        by (rule less.hyps [rotated])
      with ipv6_loop_Continue [OF inw Continue] show ?thesis by simp
    qed
  next
    case colon
    with at_hex have lt: "src st < i" by fastforce
    show ?thesis
    proof (cases "ipv6_step str src_endp st")
      case Reject
      with inw show ?thesis by (rule ipv6_loop_Reject)
    next
      case (Break st')
      with colon show ?thesis by (simp add: ipv6_step_colon split: if_splits)
    next
      case (Continue st')
      with colon have st': "src st' = src st + 1" "xdigits_seen st' = 0"
        by (auto simp: ipv6_step_colon split: if_splits)
      with lt have "xdigits_seen st' \<le> 4" "src st' \<le> i + 4" "src st' - i \<le> xdigits_seen st'"
        by simp_all
      moreover from st' less.prems(2) have "i + 5 - src st' < i + 5 - src st" by simp
      ultimately have "ipv6_loop str src_endp st' = None"
        by (rule less.hyps [rotated])
      with ipv6_loop_Continue [OF inw Continue] show ?thesis by simp
    qed
  next
    case dot
    with at_hex have "src st < i" by fastforce
    with nodot dot show ?thesis by simp
  next
    case other
    then have "ipv6_step str src_endp st = Reject" by (rule ipv6_step_other)
    with inw show ?thesis by (rule ipv6_loop_Reject)
  qed
qed

lemma ipv6_step_xdigits:
  assumes "xdigits_seen st \<le> 4" "ipv6_step str src_endp st = Continue st'"
  shows "xdigits_seen st' \<le> 4 \<and>
         (group_count st' \<noteq> group_count st \<longrightarrow>
            1 \<le> xdigits_seen st \<and> group_count st' = group_count st + 1)"
proof -
  let ?ch = "char_at str (src st)"
  consider (hex) "0 \<le> hex_digit_value ?ch"
    | (colon) "?ch = CHR '':''"
    | (dot) "?ch = CHR ''.''"
    | (other) "hex_digit_value ?ch < 0" "?ch \<noteq> CHR '':''" "?ch \<noteq> CHR ''.''"
    by linarith
  then show ?thesis
  proof cases
    case hex
    with assms show ?thesis by (auto simp: ipv6_step_hex split: if_splits)
  next
    case colon
    with assms show ?thesis by (auto simp: ipv6_step_colon split: if_splits)
  next
    case dot
    with assms show ?thesis by (simp add: ipv6_step_dot split: if_splits)
  next
    case other
    with assms show ?thesis by (simp add: ipv6_step_other)
  qed
qed

lemma ipv6_step_Break_xdigits:
  "ipv6_step str src_endp st = Break st' \<Longrightarrow> xdigits_seen st' = 0"
proof -
  assume a: "ipv6_step str src_endp st = Break st'"
  let ?ch = "char_at str (src st)"
  consider (hex) "0 \<le> hex_digit_value ?ch"
    | (colon) "?ch = CHR '':''"
    | (dot) "?ch = CHR ''.''"
    | (other) "hex_digit_value ?ch < 0" "?ch \<noteq> CHR '':''" "?ch \<noteq> CHR ''.''"
    by linarith
  then show ?thesis
  proof cases
    case hex
    with a show ?thesis by (simp add: ipv6_step_hex split: if_splits)
  next
    case colon
    with a show ?thesis by (simp add: ipv6_step_colon split: if_splits)
  next
    case dot
    with a show ?thesis by (auto simp: ipv6_step_dot split: if_splits)
  next
    case other
    with a show ?thesis by (simp add: ipv6_step_other)
  qed
qed

lemma ipv6_loop_xdigits:
  "xdigits_seen st \<le> 4 \<Longrightarrow> ipv6_loop str src_endp st = Some st' \<Longrightarrow> xdigits_seen st' \<le> 4"
proof (induction str src_endp st rule: ipv6_loop.induct)
  case (1 str src_endp st)
  show ?case
  proof (cases "src st < src_endp")
    case False
    with "1.prems" show ?thesis by (simp add: ipv6_loop_done)
  next
    case True
    show ?thesis
    proof (cases "ipv6_step str src_endp st")
      case Reject
      with True "1.prems" show ?thesis by (simp add: ipv6_loop_Reject)
    next
      case (Break st'')
      with True "1.prems" show ?thesis
        by (simp add: ipv6_loop_Break ipv6_step_Break_xdigits)
    next
      case (Continue st'')
      from ipv6_step_xdigits [OF "1.prems"(1) Continue] have "xdigits_seen st'' \<le> 4" by simp
      moreover from "1.prems"(2) ipv6_loop_Continue [OF True Continue]
      have "ipv6_loop str src_endp st'' = Some st'" by simp
      ultimately show ?thesis by (rule "1.IH" [OF True Continue])
    qed
  qed
qed

lemma ipv6_scan_xdigits: "ipv6_scan s = Some st \<Longrightarrow> xdigits_seen st \<le> 4"
  by (auto simp: ipv6_scan_def ipv6_start_def Let_def split: option.splits if_splits
      dest!: ipv6_loop_xdigits [rotated])

lemma ipv6_five_hex_digits:
  assumes hex: "\<forall>j<5. 0 \<le> hex_digit_value (s ! (i + j))"
    and nodot: "\<forall>j<i. s ! j \<noteq> CHR ''.''"
    and win: "i + 5 \<le> strnlen s INET6_ADDRSTRLEN"
  shows "is_valid_ipv6_address (Some s) = False"
proof -
  let ?e = "strnlen s INET6_ADDRSTRLEN"
  from win strnlen_le_length [of s INET6_ADDRSTRLEN] have len: "i + 5 \<le> length s" by simp
  from hex len have hex': "\<forall>j<5. 0 \<le> hex_digit_value (char_at s (i + j))"
    by (simp add: char_at_def)
  from nodot len have nodot': "\<forall>j<i. char_at s j \<noteq> CHR ''.''"
    by (simp add: char_at_def)
  have "ipv6_loop s ?e st = None" if "ipv6_start s ?e = Some st" for st
  proof -
    from that have x: "xdigits_seen st = 0" and sr: "src st = 0 \<or> (src st = 1 \<and> char_at s 0 = CHR '':'')"
      by (auto simp: ipv6_start_def split: if_splits)
    have "src st \<le> i"
    proof (cases "i = 0")
      case True
      with hex' have "0 \<le> hex_digit_value (char_at s 0)" by (metis add.right_neutral zero_less_numeral)
      with sr True show ?thesis by auto
    next
      case False
      with sr show ?thesis by auto
    qed
    with x show ?thesis
      by (intro ipv6_five_hex_digits_loop [OF hex' nodot' win]) simp_all
  qed
  then have "ipv6_scan s = None"
    by (simp add: ipv6_scan_def Let_def split: option.split)
  then show ?thesis by (simp add: is_valid_ipv6_address_def)
qed

lemma ipv6_scan_empty_window: "char_at s 0 = NUL \<Longrightarrow> ipv6_scan s = None"
  by (simp add: ipv6_scan_def ipv6_start_def strnlen_zero_iff)

lemma ipv6_finish_iff:
  "ipv6_finish st =
     (if has_compression st then final_group_count st < 8 else final_group_count st = 8)"
  by (auto simp: ipv6_finish_def Let_def)

section \<open>The value of the current group\<close>

lemma hex_digit_value_range: "hex_digit_value c \<le> 15"
proof -
  have "(of_char c :: int) = int (of_char c)" by (simp add: of_nat_of_char)
  then show ?thesis
    by (auto simp: hex_digit_value_def less_eq_char_def)
qed

lemma shift_in_uint:
  fixes v :: "32 word"
  assumes v: "uint v < 2 ^ (4 * k)" and k: "k < 4" and d: "0 \<le> d" "d \<le> 15"
  shows "uint (push_bit 4 v OR word_of_int d) < 2 ^ (4 * (k + 1))"
proof -
  define n where "n = 4 * (k + 1)"
  have p: "(2::int) ^ n = 16 * 2 ^ (4 * k)"
    by (simp add: n_def power_add)
  from k have "n \<le> 16" by (simp add: n_def)
  then have "(2::int) ^ n \<le> 2 ^ 16"
    by (rule power_increasing) simp
  then have le32: "(2::int) ^ n \<le> 2 ^ 32" by simp
  from v have "uint v * 16 < 2 ^ n" unfolding p by simp
  then have sh: "push_bit 4 (uint v) < 2 ^ n" "0 \<le> push_bit 4 (uint v)"
    by (simp_all add: push_bit_eq_mult)
  with le32 have "take_bit 32 (push_bit 4 (uint v)) = push_bit 4 (uint v)"
    by (simp add: take_bit_int_eq_self)
  then have a: "uint (push_bit 4 v) = push_bit 4 (uint v)"
    by (simp add: unsigned_push_bit_eq)
  from d have b: "uint (word_of_int d :: 32 word) = d"
    by (simp add: uint_word_of_int)
  have "(1::int) \<le> 2 ^ (4 * k)" by simp
  then have "(16::int) \<le> 16 * 2 ^ (4 * k)" by linarith
  with d have "d < 2 ^ n" unfolding p by linarith
  with sh have "push_bit 4 (uint v) OR d < 2 ^ n"
    by (intro OR_upper) simp_all
  with a b show ?thesis by (simp add: unsigned_or_eq n_def)
qed

lemma uint_below_no_overflow:
  fixes v :: "32 word"
  assumes "uint v < 2 ^ (4 * k)" "k \<le> 4"
  shows "\<not> 0xffff < v"
proof -
  from assms(2) have "4 * k \<le> 16" by simp
  then have "(2::int) ^ (4 * k) \<le> 2 ^ 16" by (rule power_increasing) simp
  with assms(1) have "uint v < 65536" by simp
  then show ?thesis by (simp add: word_less_def)
qed

lemma ipv6_hex_run:
  "list_all (\<lambda>c. 0 \<le> hex_digit_value c) g \<Longrightarrow> xdigits_seen st + length g \<le> 4 \<Longrightarrow>
   uint (val st) < 2 ^ (4 * xdigits_seen st) \<Longrightarrow> src st + length g \<le> src_endp \<Longrightarrow>
   \<forall>j<length g. char_at str (src st + j) = g ! j \<Longrightarrow>
   \<exists>v. ipv6_loop str src_endp st =
         ipv6_loop str src_endp
           (st\<lparr>src := src st + length g, val := v,
               xdigits_seen := xdigits_seen st + length g\<rparr>)"
proof (induction g arbitrary: st)
  case Nil
  have "st\<lparr>src := src st, val := val st, xdigits_seen := xdigits_seen st\<rparr> = st" by simp
  then show ?case by (intro exI [of _ "val st"]) simp
next
  case (Cons c g)
  let ?v = "push_bit 4 (val st) OR word_of_int (hex_digit_value c)"
  let ?st1 = "st\<lparr>src := src st + 1, val := ?v, xdigits_seen := xdigits_seen st + 1\<rparr>"
  from Cons.prems(5) have ch: "char_at str (src st) = c" by fastforce
  from Cons.prems(1) have hc: "0 \<le> hex_digit_value c" and hg: "list_all (\<lambda>c. 0 \<le> hex_digit_value c) g"
    by simp_all
  from Cons.prems(2) have x: "xdigits_seen st < 4" by simp
  have b1: "uint ?v < 2 ^ (4 * (xdigits_seen st + 1))"
    using Cons.prems(3) x hc hex_digit_value_range by (rule shift_in_uint)
  from x have "xdigits_seen st + 1 \<le> 4" by simp
  with b1 have no: "\<not> 0xffff < ?v" by (rule uint_below_no_overflow)
  from Cons.prems(4) have inw: "src st < src_endp" by simp
  from ch hc x no have "ipv6_step str src_endp st = Continue ?st1"
    by (simp add: ipv6_step_hex)
  with inw have l1: "ipv6_loop str src_endp st = ipv6_loop str src_endp ?st1"
    by (rule ipv6_loop_Continue)
  have "\<exists>v. ipv6_loop str src_endp ?st1 =
         ipv6_loop str src_endp
           (?st1\<lparr>src := src ?st1 + length g, val := v,
               xdigits_seen := xdigits_seen ?st1 + length g\<rparr>)"
  proof (rule Cons.IH [OF hg])
    from Cons.prems(2) show "xdigits_seen ?st1 + length g \<le> 4" by simp
    from b1 show "uint (val ?st1) < 2 ^ (4 * xdigits_seen ?st1)" by simp
    from Cons.prems(4) show "src ?st1 + length g \<le> src_endp" by simp
    show "\<forall>j<length g. char_at str (src ?st1 + j) = g ! j"
    proof (intro allI impI)
      fix j assume "j < length g"
      then have "Suc j < length (c # g)" by simp
      with Cons.prems(5) have "char_at str (src st + Suc j) = (c # g) ! Suc j" by blast
      then show "char_at str (src ?st1 + j) = g ! j" by simp
    qed
  qed
  then obtain v where "ipv6_loop str src_endp ?st1 =
         ipv6_loop str src_endp
           (?st1\<lparr>src := src ?st1 + length g, val := v,
               xdigits_seen := xdigits_seen ?st1 + length g\<rparr>)" ..
  with l1 show ?case by (intro exI [of _ v]) simp
qed

lemma ipv6_colon_closes_group:
  assumes "char_at str (src st) = CHR '':''" "0 < xdigits_seen st" "src st + 1 < src_endp"
    "group_count st + 1 \<le> 8"
  shows "ipv6_loop str src_endp st =
     ipv6_loop str src_endp
       (st\<lparr>src := src st + 1, curtok := src st + 1, group_count := group_count st + 1,
           xdigits_seen := 0, val := 0\<rparr>)"
proof -
  from assms have "ipv6_step str src_endp st =
     Continue (st\<lparr>src := src st + 1, curtok := src st + 1, group_count := group_count st + 1,
           xdigits_seen := 0, val := 0\<rparr>)"
    by (simp add: ipv6_step_colon)
  with assms(3) show ?thesis by (intro ipv6_loop_Continue) simp_all
qed

lemma spec_colon_join_Cons:
  "gs \<noteq> [] \<Longrightarrow> spec_colon_join (g # gs) = g @ CHR '':'' # spec_colon_join gs"
  by (cases gs) simp_all

lemma spec_colon_join_nonempty:
  "gs \<noteq> [] \<Longrightarrow> list_all spec_hex_group gs \<Longrightarrow> spec_colon_join gs \<noteq> []"
  by (cases gs rule: spec_colon_join.cases) (auto simp: spec_hex_group_def)

lemma ipv6_groups_loop:
  "gs \<noteq> [] \<Longrightarrow> list_all spec_hex_group gs \<Longrightarrow> xdigits_seen st = 0 \<Longrightarrow> val st = 0 \<Longrightarrow>
   group_count st + int (length gs) \<le> 8 \<Longrightarrow>
   src st + length (spec_colon_join gs) = src_endp \<Longrightarrow>
   \<forall>j<length (spec_colon_join gs). char_at str (src st + j) = spec_colon_join gs ! j \<Longrightarrow>
   \<exists>st'. ipv6_loop str src_endp st = Some st' \<and> has_compression st' = has_compression st \<and>
         final_group_count st' = group_count st + int (length gs)"
proof (induction gs arbitrary: st)
  case Nil
  then show ?case by simp
next
  case (Cons g gs)
  from Cons.prems(2) have hg: "spec_hex_group g" and gs: "list_all spec_hex_group gs"
    by simp_all
  from hg have g: "1 \<le> length g" "length g \<le> 4"
    "list_all (\<lambda>c. 0 \<le> hex_digit_value c) g"
    by (simp_all add: spec_hex_group_def)
  from g(1) have gne: "g \<noteq> []" by auto
  have pre: "\<exists>t. spec_colon_join (g # gs) = g @ t"
    by (cases gs) simp_all
  have chars_g: "\<forall>j<length g. char_at str (src st + j) = g ! j"
  proof (intro allI impI)
    fix j assume j: "j < length g"
    from pre obtain t where t: "spec_colon_join (g # gs) = g @ t" ..
    with j have "j < length (spec_colon_join (g # gs))" by simp
    with Cons.prems(7) have "char_at str (src st + j) = spec_colon_join (g # gs) ! j" by blast
    with t j show "char_at str (src st + j) = g ! j" by (simp add: nth_append)
  qed
  from pre Cons.prems(6) have fits: "src st + length g \<le> src_endp" by auto
  from ipv6_hex_run [OF g(3) _ _ fits chars_g] g(2) Cons.prems(3,4)
  obtain v where run: "ipv6_loop str src_endp st =
      ipv6_loop str src_endp (st\<lparr>src := src st + length g, val := v, xdigits_seen := length g\<rparr>)"
    by auto
  let ?st2 = "st\<lparr>src := src st + length g, val := v, xdigits_seen := length g\<rparr>"
  show ?case
  proof (cases "gs = []")
    case True
    with Cons.prems(6) have "\<not> src ?st2 < src_endp" by simp
    then have "ipv6_loop str src_endp ?st2 = Some ?st2" by (rule ipv6_loop_done)
    moreover note gne
    ultimately show ?thesis
      using run True by (intro exI [of _ ?st2]) (simp add: final_group_count_def)
  next
    case False
    then have j: "spec_colon_join (g # gs) = g @ CHR '':'' # spec_colon_join gs"
      by (rule spec_colon_join_Cons)
    from False gs have ne: "spec_colon_join gs \<noteq> []" by (rule spec_colon_join_nonempty)
    have "char_at str (src st + length g) = spec_colon_join (g # gs) ! length g"
      using Cons.prems(7) j by simp
    then have colon: "char_at str (src ?st2) = CHR '':''" by (simp add: j)
    let ?st3 = "?st2\<lparr>src := src ?st2 + 1, curtok := src ?st2 + 1,
      group_count := group_count ?st2 + 1, xdigits_seen := 0, val := 0\<rparr>"
    have close: "ipv6_loop str src_endp ?st2 = ipv6_loop str src_endp ?st3"
    proof (rule ipv6_colon_closes_group [OF colon])
      from gne show "0 < xdigits_seen ?st2" by simp
      from Cons.prems(6) j ne show "src ?st2 + 1 < src_endp"
        by (cases "spec_colon_join gs") auto
      from Cons.prems(5) show "group_count ?st2 + 1 \<le> 8" by simp
    qed
    have "\<exists>st'. ipv6_loop str src_endp ?st3 = Some st' \<and>
        has_compression st' = has_compression ?st3 \<and>
        final_group_count st' = group_count ?st3 + int (length gs)"
    proof (rule Cons.IH [OF False gs])
      show "xdigits_seen ?st3 = 0" "val ?st3 = 0" by simp_all
      from Cons.prems(5) show "group_count ?st3 + int (length gs) \<le> 8" by simp
      from Cons.prems(6) j show "src ?st3 + length (spec_colon_join gs) = src_endp" by simp
      show "\<forall>j<length (spec_colon_join gs). char_at str (src ?st3 + j) = spec_colon_join gs ! j"
      proof (intro allI impI)
        fix k assume k: "k < length (spec_colon_join gs)"
        with j have "length g + 1 + k < length (spec_colon_join (g # gs))" by simp
        with Cons.prems(7)
        have "char_at str (src st + (length g + 1 + k)) = spec_colon_join (g # gs) ! (length g + 1 + k)"
          by blast
        also have "\<dots> = spec_colon_join gs ! k" by (simp add: j nth_append)
        finally show "char_at str (src ?st3 + k) = spec_colon_join gs ! k"
          by (simp add: add.assoc)
      qed
    qed
    then obtain st' where "ipv6_loop str src_endp ?st3 = Some st'"
      "has_compression st' = has_compression ?st3"
      "final_group_count st' = group_count ?st3 + int (length gs)" by blast
    with run close show ?thesis by (intro exI [of _ st']) simp
  qed
qed

lemma hex_digit_value_nul [simp]: "hex_digit_value CHR 0x00 = - 1"
  by (simp add: hex_digit_value_def less_eq_char_def)

lemma spec_colon_join_chars:
  "list_all spec_hex_group gs \<Longrightarrow>
   \<forall>c \<in> set (spec_colon_join gs). 0 \<le> hex_digit_value c \<or> c = CHR '':''"
  by (induction gs rule: spec_colon_join.induct) (auto simp: spec_hex_group_def list_all_iff)

lemma spec_colon_join_length:
  "list_all spec_hex_group gs \<Longrightarrow> length (spec_colon_join gs) \<le> 5 * length gs"
  by (induction gs rule: spec_colon_join.induct) (auto simp: spec_hex_group_def)

lemma spec_colon_join_first:
  assumes "gs \<noteq> []" "list_all spec_hex_group gs"
  shows "0 \<le> hex_digit_value (spec_colon_join gs ! 0)"
proof -
  from assms(1) obtain g gs' where gs: "gs = g # gs'" by (cases gs) auto
  with assms(2) have "spec_hex_group g" by simp
  then obtain c g' where g: "g = c # g'" and "0 \<le> hex_digit_value c"
    by (cases g) (auto simp: spec_hex_group_def)
  moreover from gs g have "spec_colon_join gs ! 0 = c" by (cases gs') simp_all
  ultimately show ?thesis by simp
qed

lemma ipv6_eight_groups_accepted:
  assumes "length gs = 8" "list_all spec_hex_group gs"
  shows "is_valid_ipv6_address (Some (spec_colon_join gs))"
proof -
  let ?s = "spec_colon_join gs"
  from assms(1) have ne: "gs \<noteq> []" by auto
  from ne assms(2) have sne: "?s \<noteq> []" by (rule spec_colon_join_nonempty)
  from spec_colon_join_chars [OF assms(2)] have nonul: "CHR 0x00 \<notin> set ?s"
    by fastforce
  from spec_colon_join_length [OF assms(2)] assms(1) have "length ?s \<le> 46" by simp
  with nonul have win: "strnlen ?s INET6_ADDRSTRLEN = length ?s"
    by (simp add: strnlen_no_nul INET6_ADDRSTRLEN_def)
  from sne have c0: "char_at ?s 0 = ?s ! 0" by (simp add: char_at_def)
  from spec_colon_join_first [OF ne assms(2)] c0
  have first: "0 \<le> hex_digit_value (char_at ?s 0)" by simp
  then have nc: "char_at ?s 0 \<noteq> CHR '':''" and nn: "char_at ?s 0 \<noteq> NUL"
    by (auto simp: NUL_def)
  let ?st0 = "\<lparr>src = 0, group_count = 0, has_compression = False, curtok = 0,
                xdigits_seen = 0, val = 0 :: 32 word\<rparr>"
  from sne nc have start: "ipv6_start ?s (length ?s) = Some ?st0"
    by (simp add: ipv6_start_def)
  have "\<exists>st'. ipv6_loop ?s (length ?s) ?st0 = Some st' \<and>
      has_compression st' = has_compression ?st0 \<and>
      final_group_count st' = group_count ?st0 + int (length gs)"
    by (rule ipv6_groups_loop [OF ne assms(2)]) (simp_all add: assms(1) char_at_def)
  then obtain st' where "ipv6_loop ?s (length ?s) ?st0 = Some st'"
    "has_compression st' = False" "final_group_count st' = 8"
    using assms(1) by auto
  with start win nn show ?thesis
    by (simp add: is_valid_ipv6_address_def ipv6_scan_def ipv6_finish_iff)
qed

section \<open>Hexadecimal groups have one to four digits\<close>

text \<open>
  C7: every completed hexadecimal group has between 1 and 4 hex digits, and a fifth
  consecutive hex digit causes immediate rejection. In the scan loop: a hex digit
  read when four digits are pending makes the step reject; a step that continues
  keeps the pending digits at 4 or fewer, and it counts a group only when at least
  one digit is pending; the group pending when the scan ends has at most four digits
  and is counted only when it has at least one. For the input: five consecutive hex
  digits inside the scan window, with no dot before them (the scan stops at the dot of
  an IPv4 suffix), make the validator return false.
\<close>

theorem ipv6_group_has_one_to_four_digits:
  "(xdigits_seen st = 4 \<and> 0 \<le> hex_digit_value (char_at str (src st)) \<longrightarrow>
      ipv6_step str src_endp st = Reject) \<and>
   (xdigits_seen st \<le> 4 \<and> ipv6_step str src_endp st = Continue st' \<longrightarrow>
      xdigits_seen st' \<le> 4 \<and>
      (group_count st' \<noteq> group_count st \<longrightarrow>
         1 \<le> xdigits_seen st \<and> group_count st' = group_count st + 1)) \<and>
   (ipv6_scan s = Some fin \<longrightarrow>
      xdigits_seen fin \<le> 4 \<and>
      (final_group_count fin \<noteq> group_count fin \<longrightarrow>
         1 \<le> xdigits_seen fin \<and> final_group_count fin = group_count fin + 1)) \<and>
   ((\<forall>j<5. 0 \<le> hex_digit_value (s ! (i + j))) \<and> (\<forall>j<i. s ! j \<noteq> CHR ''.'') \<and>
    i + 5 \<le> strnlen s INET6_ADDRSTRLEN \<longrightarrow>
      is_valid_ipv6_address (Some s) = False)"
proof (intro conjI impI)
  assume "xdigits_seen st = 4 \<and> 0 \<le> hex_digit_value (char_at str (src st))"
  then show "ipv6_step str src_endp st = Reject"
    by (simp add: ipv6_step_hex)
next
  assume a: "xdigits_seen st \<le> 4 \<and> ipv6_step str src_endp st = Continue st'"
  then have r: "xdigits_seen st' \<le> 4 \<and>
         (group_count st' \<noteq> group_count st \<longrightarrow>
            1 \<le> xdigits_seen st \<and> group_count st' = group_count st + 1)"
    using ipv6_step_xdigits [of st str src_endp st'] by simp
  from r show "xdigits_seen st' \<le> 4" by simp
  assume "group_count st' \<noteq> group_count st"
  with r show "1 \<le> xdigits_seen st" and "group_count st' = group_count st + 1" by simp_all
next
  assume "ipv6_scan s = Some fin"
  then show "xdigits_seen fin \<le> 4" by (rule ipv6_scan_xdigits)
next
  assume "final_group_count fin \<noteq> group_count fin"
  then show "1 \<le> xdigits_seen fin" and "final_group_count fin = group_count fin + 1"
    by (simp_all add: final_group_count_def split: if_splits)
next
  assume "(\<forall>j<5. 0 \<le> hex_digit_value (s ! (i + j))) \<and> (\<forall>j<i. s ! j \<noteq> CHR ''.'') \<and>
    i + 5 \<le> strnlen s INET6_ADDRSTRLEN"
  then show "is_valid_ipv6_address (Some s) = False"
    using ipv6_five_hex_digits [of s i] by simp
qed

theorem ipv6_group_has_one_to_four_digits_witness:
  "ipv6_step ''12345::'' 7
     \<lparr>src = 4, group_count = 0, has_compression = False, curtok = 0, xdigits_seen = 4,
      val = 0x1234\<rparr> = Reject \<and>
   is_valid_ipv6_address (Some ''12345::'') = False \<and>
   ipv6_step ''1:2::'' 5
     \<lparr>src = 1, group_count = 0, has_compression = False, curtok = 0, xdigits_seen = 1,
      val = 1\<rparr> =
     Continue \<lparr>src = 2, group_count = 1, has_compression = False, curtok = 2,
       xdigits_seen = 0, val = 0\<rparr> \<and>
   ipv6_scan ''::1'' =
     Some \<lparr>src = 3, group_count = 0, has_compression = True, curtok = 2, xdigits_seen = 1,
       val = 1\<rparr> \<and>
   final_group_count \<lparr>src = 3, group_count = 0, has_compression = True, curtok = 2,
       xdigits_seen = 1, val = 1\<rparr> = 1"
proof -
  let ?a = "\<lparr>src = 4, group_count = 0, has_compression = False, curtok = 0, xdigits_seen = 4,
      val = 0x1234 :: 32 word\<rparr>"
  let ?b = "\<lparr>src = 1, group_count = 0, has_compression = False, curtok = 0, xdigits_seen = 1,
      val = 1 :: 32 word\<rparr>"
  let ?b' = "\<lparr>src = 2, group_count = 1, has_compression = False, curtok = 2,
       xdigits_seen = 0, val = 0 :: 32 word\<rparr>"
  let ?fin = "\<lparr>src = 3, group_count = 0, has_compression = True, curtok = 2, xdigits_seen = 1,
       val = 1 :: 32 word\<rparr>"
  have a1: "xdigits_seen ?a = 4 \<and> 0 \<le> hex_digit_value (char_at ''12345::'' (src ?a))"
    by code_simp
  have a4: "(\<forall>j<5. 0 \<le> hex_digit_value (''12345::'' ! (0 + j))) \<and>
      (\<forall>j<0. ''12345::'' ! j \<noteq> CHR ''.'') \<and> 0 + 5 \<le> strnlen ''12345::'' INET6_ADDRSTRLEN"
    by code_simp
  have b2: "xdigits_seen ?b \<le> 4 \<and> ipv6_step ''1:2::'' 5 ?b = Continue ?b'"
    by code_simp
  have b3: "ipv6_scan ''::1'' = Some ?fin"
    by code_simp
  have b3': "final_group_count ?fin = 1" by code_simp
  from ipv6_group_has_one_to_four_digits [of ?a "''12345::''" 7 ?a "''12345::''" ?fin 0] a1 a4
  have A: "ipv6_step ''12345::'' 7 ?a = Reject" "is_valid_ipv6_address (Some ''12345::'') = False"
    by blast+
  from ipv6_group_has_one_to_four_digits [of ?b "''1:2::''" 5 ?b' "''::1''" ?fin 0] b2 b3
  have "xdigits_seen ?fin \<le> 4" by blast
  with A b2 b3 b3' show ?thesis by simp
qed

section \<open>The final group count\<close>

text \<open>
  C3: an input is accepted exactly when the scan ends without rejecting and the final
  group count (the groups counted during the scan, plus the group pending at the end)
  is less than 8 if a compression marker was consumed, and exactly 8 if none was. So
  \<open>::\<close> alone is accepted, every address of 8 groups of one to four hex digits
  joined by single colons is accepted, and an input whose scan consumed a compression
  marker and counted 8 groups is rejected.
\<close>

theorem ipv6_final_group_count_rule:
  "is_valid_ipv6_address (Some s) =
     (\<exists>st. ipv6_scan s = Some st \<and>
        (if has_compression st then final_group_count st < 8 else final_group_count st = 8)) \<and>
   is_valid_ipv6_address (Some ''::'') = True \<and>
   (length gs = 8 \<and> list_all spec_hex_group gs \<longrightarrow>
      is_valid_ipv6_address (Some (spec_colon_join gs)) = True) \<and>
   (ipv6_scan s = Some st \<and> has_compression st \<and> final_group_count st = 8 \<longrightarrow>
      is_valid_ipv6_address (Some s) = False) \<and>
   is_valid_ipv6_address (Some ''1:2:3:4::5:6:7:8'') = False"
proof -
  have rule: "is_valid_ipv6_address (Some s) =
     (\<exists>st. ipv6_scan s = Some st \<and>
        (if has_compression st then final_group_count st < 8 else final_group_count st = 8))"
    for s
  proof (cases "char_at s 0 = NUL")
    case True
    then show ?thesis
      by (simp add: is_valid_ipv6_address_def ipv6_scan_empty_window)
  next
    case False
    then show ?thesis
      by (cases "ipv6_scan s") (simp_all add: is_valid_ipv6_address_def ipv6_finish_iff)
  qed
  have "is_valid_ipv6_address (Some ''::'') = True" by code_simp
  moreover have "is_valid_ipv6_address (Some ''1:2:3:4::5:6:7:8'') = False" by code_simp
  moreover have "length gs = 8 \<and> list_all spec_hex_group gs \<longrightarrow>
      is_valid_ipv6_address (Some (spec_colon_join gs)) = True"
    using ipv6_eight_groups_accepted [of gs] by simp
  moreover have "ipv6_scan s = Some st \<and> has_compression st \<and> final_group_count st = 8 \<longrightarrow>
      is_valid_ipv6_address (Some s) = False"
    by (auto simp: rule [of s])
  ultimately show ?thesis using rule [of s] by simp
qed

theorem ipv6_final_group_count_rule_witness:
  "is_valid_ipv6_address (Some ''::1'') \<and>
   (\<exists>st. ipv6_scan ''::1'' = Some st \<and> has_compression st \<and> final_group_count st = 1) \<and>
   spec_colon_join [''2001'', ''db8'', ''0'', ''0'', ''0'', ''0'', ''c0A8'', ''1'']
     = ''2001:db8:0:0:0:0:c0A8:1'' \<and>
   is_valid_ipv6_address (Some ''2001:db8:0:0:0:0:c0A8:1'') \<and>
   \<not> is_valid_ipv6_address (Some ''1:2:3:4:5:6:7:8::'')"
proof -
  let ?gs = "[''2001'', ''db8'', ''0'', ''0'', ''0'', ''0'', ''c0A8'', ''1'']"
  let ?fin = "\<lparr>src = 17, group_count = 8, has_compression = True, curtok = 17,
       xdigits_seen = 0, val = 0 :: 32 word\<rparr>"
  have v: "is_valid_ipv6_address (Some ''::1'')" by code_simp
  have s: "ipv6_scan ''::1'' =
     Some \<lparr>src = 3, group_count = 0, has_compression = True, curtok = 2, xdigits_seen = 1,
       val = 1\<rparr>"
    by code_simp
  have g: "length ?gs = 8 \<and> list_all spec_hex_group ?gs" by code_simp
  have j: "spec_colon_join ?gs = ''2001:db8:0:0:0:0:c0A8:1''" by code_simp
  have r: "ipv6_scan ''1:2:3:4:5:6:7:8::'' = Some ?fin \<and> has_compression ?fin \<and>
      final_group_count ?fin = 8"
    by code_simp
  from ipv6_final_group_count_rule [of "''::1''" ?gs] v
  obtain st where "ipv6_scan ''::1'' = Some st"
    "if has_compression st then final_group_count st < 8 else final_group_count st = 8"
    by blast
  with s have 1: "\<exists>st. ipv6_scan ''::1'' = Some st \<and> has_compression st \<and> final_group_count st = 1"
    by (auto simp: final_group_count_def)
  from ipv6_final_group_count_rule [of "''1:2:3:4:5:6:7:8::''" ?gs ?fin] g j r
  have "is_valid_ipv6_address (Some ''2001:db8:0:0:0:0:c0A8:1'')"
    "\<not> is_valid_ipv6_address (Some ''1:2:3:4:5:6:7:8::'')"
    by simp_all
  with v 1 j show ?thesis by simp
qed

section \<open>Text after an embedded IPv4 suffix\<close>

text \<open>
  C4: a dot with hex digits pending starts an embedded IPv4 suffix, the remainder of
  the string from the start of that token has exactly 3 dots and only digits and dots,
  and nothing may follow the suffix. The code does not ensure this for an input longer
  than its 46-character window: the dots and digits are checked up to the end of the
  window only, and the IPv4 validator, given the untruncated remainder, accepts a quad
  that is followed by a dot at its index 16. Here the remainder from the token start
  has 5 dots and a letter, and the address is accepted.
\<close>

theorem ipv6_suffix_remainder_not_checked:
  "drop 30 ''2001:0db8:0000:0000:0000:ffff:192.168.001.0001.9.9z'' = ''192.168.001.0001.9.9z'' \<and>
   length (filter (\<lambda>c. c = CHR ''.'') ''192.168.001.0001.9.9z'') = 5 \<and>
   list_all (\<lambda>c. isdigit c \<or> c = CHR ''.'') ''192.168.001.0001.9.9z'' = False \<and>
   is_valid_ipv6_address (Some ''2001:0db8:0000:0000:0000:ffff:192.168.001.0001.9.9z'') = True"
  by code_simp

section \<open>Colons after an embedded IPv4 suffix\<close>

lemma ipv6_second_compression_rejected:
  "char_at str (src st) = CHR '':'' \<Longrightarrow> xdigits_seen st = 0 \<Longrightarrow> has_compression st \<Longrightarrow>
   src st < src_endp \<Longrightarrow> ipv6_loop str src_endp st = None"
  by (simp add: ipv6_loop_Reject ipv6_step_colon)

text \<open>
  C5: at most one compression marker is accepted, so any input that contains two
  compression markers or three consecutive colons is rejected. Inside the scan the
  second marker is rejected (the lemma above), and \<open>2001:db8:::1\<close> is rejected. But an
  input that holds its colons after an embedded IPv4 suffix, past the 46-character
  window, is accepted, with three consecutive colons or with two compression markers.
\<close>

theorem ipv6_colons_past_window_accepted:
  "is_valid_ipv6_address (Some ''2001:db8:::1'') = False \<and>
   is_valid_ipv6_address (Some ''1111:2222:3333:4444:5555:6666:001.001.001.0001.:::'') = True \<and>
   is_valid_ipv6_address (Some ''1111:2222:3333:4444:5555:6666:001.001.001.0001.::1::2'') = True"
  by code_simp

end
